theory Spec2Isabelle
  imports Complex_Main "HOL-Library.Sublist"
begin

section \<open>Python strings\<close>

text \<open>
  A Python \<open>str\<close> is modelled as a \<open>string\<close>; one \<open>char\<close> stands for one code point in
  the range 0..255, so \<open>length\<close> counts what Python's \<open>len\<close> counts. The built-in string
  methods the program calls are written out for that range.
\<close>

definition isspace :: "char \<Rightarrow> bool" where
  \<comment> \<open>the code points below 256 that \<open>str.strip()\<close> removes\<close>
  "isspace c = (let n = (of_char c :: nat) in
     (9 \<le> n \<and> n \<le> 13) \<or> (28 \<le> n \<and> n \<le> 32) \<or> n = 133 \<or> n = 160)"

definition strip :: "string \<Rightarrow> string" where
  \<comment> \<open>\<open>s.strip()\<close>\<close>
  "strip s = rev (dropWhile isspace (rev (dropWhile isspace s)))"

definition lower_char :: "char \<Rightarrow> char" where
  "lower_char c = (let n = (of_char c :: nat) in
     if (65 \<le> n \<and> n \<le> 90) \<or> (192 \<le> n \<and> n \<le> 222 \<and> n \<noteq> 215)
     then char_of (n + 32) else c)"

definition lower :: "string \<Rightarrow> string" where
  \<comment> \<open>\<open>s.lower()\<close>\<close>
  "lower s = map lower_char s"

fun split :: "char \<Rightarrow> string \<Rightarrow> string list" where
  \<comment> \<open>\<open>s.split(sep)\<close> for a one-character separator\<close>
  "split sep [] = [[]]"
| "split sep (c # cs) =
     (if c = sep then [] # split sep cs
      else (case split sep cs of [] \<Rightarrow> [[c]] | w # ws \<Rightarrow> (c # w) # ws))"

section \<open>Sentiment chunker and aggregator (analisisSentimiento.py)\<close>

text \<open>
  The classifier is an injected capability. \<open>None\<close> stands for any exception raised
  while obtaining \<open>clasificador_sentimientos(current_chunk)[0]\<close>; \<open>Some (label, score)\<close>
  for a result with these two fields. Scores are Python floats, modelled as reals.
\<close>

type_synonym classifier = "string \<Rightarrow> (string \<times> real) option"

record state =
  sentiment_scores :: "(string \<times> real) list"
  current_chunk :: string
  chunk_count :: nat
  calls :: "string list"

definition init_state :: state where
  "init_state = \<lparr> sentiment_scores =
       [(''positive'', 0), (''negative'', 0), (''neutral'', 0)],
     current_chunk = [], chunk_count = 0, calls = [] \<rparr>"

definition dict_set :: "(string \<times> real) list \<Rightarrow> string \<Rightarrow> real \<Rightarrow> (string \<times> real) list" where
  \<comment> \<open>\<open>d[k] = v\<close> for a key already in the dictionary: the position is kept\<close>
  "dict_set d k v = map (\<lambda>(k', v'). if k' = k then (k', v) else (k', v')) d"

definition classify :: "classifier \<Rightarrow> state \<Rightarrow> state" where
  \<comment> \<open>the \<open>try\<close> block: the call is recorded in \<open>calls\<close>; an exception of the classifier
      or a label that is no key of \<open>sentiment_scores\<close> (KeyError) leaves the sums and
      the count as they were\<close>
  "classify clasificador st =
     (let st' = st\<lparr>calls := calls st @ [current_chunk st]\<rparr> in
      case clasificador (current_chunk st) of
        None \<Rightarrow> st'
      | Some (label, score) \<Rightarrow>
          (case map_of (sentiment_scores st) label of
             None \<Rightarrow> st'
           | Some v \<Rightarrow> st'\<lparr>sentiment_scores := dict_set (sentiment_scores st) label (v + score),
                           chunk_count := chunk_count st + 1\<rparr>))"

definition loop_body :: "classifier \<Rightarrow> state \<Rightarrow> string \<Rightarrow> state" where
  "loop_body clasificador st sentence =
     (if length (strip sentence) = 0 then st
      else if length (current_chunk st) + length sentence < 500
      then st\<lparr>current_chunk := current_chunk st @ sentence @ ''.''\<rparr>
      else (let st1 = (if current_chunk st \<noteq> [] then classify clasificador st else st)
            in st1\<lparr>current_chunk := sentence @ ''.''\<rparr>))"

fun loop :: "classifier \<Rightarrow> state \<Rightarrow> string list \<Rightarrow> state" where
  "loop clasificador st [] = st"
| "loop clasificador st (sentence # sentences) =
     loop clasificador (loop_body clasificador st sentence) sentences"

definition last_chunk :: "classifier \<Rightarrow> state \<Rightarrow> state" where
  \<comment> \<open>lines 60-67\<close>
  "last_chunk clasificador st =
     (if current_chunk st \<noteq> [] then classify clasificador st else st)"

definition process :: "classifier \<Rightarrow> string \<Rightarrow> state" where
  \<comment> \<open>the state when line 69 is reached\<close>
  "process clasificador texto =
     last_chunk clasificador (loop clasificador init_state (split (CHR ''.'') texto))"

fun py_max :: "(string \<times> real) \<Rightarrow> (string \<times> real) list \<Rightarrow> (string \<times> real)" where
  \<comment> \<open>\<open>max(items, key=lambda x: x[1])\<close>: a later item replaces the maximum only when its
      value is strictly greater\<close>
  "py_max m [] = m"
| "py_max m (x # xs) = py_max (if snd x > snd m then x else m) xs"

definition averages :: "(string \<times> real) list \<Rightarrow> nat \<Rightarrow> (string \<times> real) list" where
  \<comment> \<open>lines 74-75: every sum divided by \<open>chunk_count\<close>\<close>
  "averages scores n = map (\<lambda>(k, v). (k, v / real n)) scores"

definition max_sentiment :: "(string \<times> real) list \<Rightarrow> nat \<Rightarrow> (string \<times> real)" where
  \<comment> \<open>line 78; \<open>max\<close> of an empty dictionary would raise, the dictionary always has
      its three keys\<close>
  "max_sentiment scores n = (case averages scores n of x # xs \<Rightarrow> py_max x xs | [] \<Rightarrow> ([], 0))"

definition verdict :: "(string \<times> real) list \<Rightarrow> nat \<Rightarrow> string" where
  \<comment> \<open>lines 69-88\<close>
  "verdict scores n =
     (if n = 0 then ''Neutro''
      else let ms = max_sentiment scores n in
        if snd ms < 0.4 then ''Neutro''
        else if fst ms = ''positive'' then ''Positivo''
        else if fst ms = ''negative'' then ''Negativo''
        else ''Neutro'')"

definition analizar_sentimientos_transformers :: "string \<Rightarrow> classifier \<Rightarrow> string" where
  "analizar_sentimientos_transformers texto clasificador =
     (let st = process clasificador texto in verdict (sentiment_scores st) (chunk_count st))"

subsection \<open>The chunking policy and the accumulation as pure functions\<close>

text \<open>
  The chunks the loop hands to the classifier, as a function of the sentences alone, and
  the results of the chunks that were classified successfully. These follow the
  description of the algorithm; the lemmas below relate them to the loop.
\<close>

fun chunks_from :: "string \<Rightarrow> string list \<Rightarrow> string list" where
  "chunks_from cur [] = (if cur \<noteq> [] then [cur] else [])"
| "chunks_from cur (s # ss) =
     (if strip s = [] then chunks_from cur ss
      else if length cur + length s < 500 then chunks_from (cur @ s @ ''.'') ss
      else (if cur \<noteq> [] then [cur] else []) @ chunks_from (s @ ''.'') ss)"

definition chunker :: "string \<Rightarrow> string list" where
  "chunker texto = chunks_from [] (split (CHR ''.'') texto)"

definition labels :: "string list" where
  "labels = [''positive'', ''negative'', ''neutral'']"

definition outcome :: "classifier \<Rightarrow> string \<Rightarrow> (string \<times> real) option" where
  \<comment> \<open>the result of a chunk that is classified successfully\<close>
  "outcome clasificador c =
     (case clasificador c of None \<Rightarrow> None
      | Some (label, score) \<Rightarrow> if label \<in> set labels then Some (label, score) else None)"

definition successes :: "classifier \<Rightarrow> string list \<Rightarrow> (string \<times> real) list" where
  "successes clasificador cs = List.map_filter (outcome clasificador) cs"

definition label_sum :: "(string \<times> real) list \<Rightarrow> string \<Rightarrow> real" where
  "label_sum rs l = sum_list (map snd (filter (\<lambda>r. fst r = l) rs))"

definition tally :: "(string \<times> real) list \<Rightarrow> (string \<times> real) list" where
  "tally rs = map (\<lambda>l. (l, label_sum rs l)) labels"



definition classified :: "classifier \<Rightarrow> string \<Rightarrow> (string \<times> real) list" where
  \<comment> \<open>the results of the successfully classified chunks of a text, in order\<close>
  "classified clasificador texto = successes clasificador (chunker texto)"



definition tallied :: "classifier \<Rightarrow> state \<Rightarrow> bool" where
  \<comment> \<open>loop invariant: the sums and the count are those of the successful calls so far\<close>
  "tallied clasificador st \<longleftrightarrow>
     sentiment_scores st = tally (successes clasificador (calls st)) \<and>
     chunk_count st = length (successes clasificador (calls st))"

definition packed :: "string set \<Rightarrow> string \<Rightarrow> bool" where
  \<comment> \<open>one or more sentences of \<open>S\<close>, none empty after trimming, each followed by
      the terminator\<close>
  "packed S c \<longleftrightarrow>
     (\<exists>ws. ws \<noteq> [] \<and> (\<forall>s \<in> set ws. s \<in> S \<and> strip s \<noteq> []) \<and>
           c = concat (map (\<lambda>s. s @ ''.'') ws))"

definition bounded :: "string set \<Rightarrow> string \<Rightarrow> bool" where
  \<comment> \<open>at most 500 characters, or a single sentence of \<open>S\<close> of 500 characters or more
      with its terminator\<close>
  "bounded S c \<longleftrightarrow> length c \<le> 500 \<or> (\<exists>s \<in> S. c = s @ ''.'' \<and> 500 \<le> length s)"

section \<open>Normalizer and deduplicator (clean_news.py)\<close>

text \<open>
  The input is what \<open>json.load\<close> returns for an array of objects: a list of records,
  each a dictionary from keys to JSON values. The text repair \<open>ftfy.fix_text\<close> is an
  external library function and is a parameter \<open>fix_text\<close> of the model. Reading and
  writing the files is left out: \<open>clean_news_data\<close> maps the loaded list \<open>data\<close> to
  the list \<open>unique_data\<close> that is written.
\<close>

datatype json =
    JNull
  | JBool bool
  | JInt int
  | JFloat real
  | JStr string
  | JList "json list"
  | JDict "(string \<times> json) list"

type_synonym article = "string \<rightharpoonup> json"

fun truthy :: "json \<Rightarrow> bool" where
  \<comment> \<open>the truth value Python gives a loaded JSON value\<close>
  "truthy JNull = False"
| "truthy (JBool b) = b"
| "truthy (JInt i) = (i \<noteq> 0)"
| "truthy (JFloat r) = (r \<noteq> 0)"
| "truthy (JStr s) = (s \<noteq> [])"
| "truthy (JList xs) = (xs \<noteq> [])"
| "truthy (JDict kvs) = (kvs \<noteq> [])"

fun is_str :: "json \<Rightarrow> bool" where
  \<comment> \<open>\<open>isinstance(v, str)\<close>\<close>
  "is_str (JStr s) = True"
| "is_str _ = False"

definition fix_key :: "(string \<Rightarrow> string) \<Rightarrow> article \<Rightarrow> string \<Rightarrow> article" where
  \<comment> \<open>lines 31-32\<close>
  "fix_key fix_text item key =
     (case item key of
        Some (JStr s) \<Rightarrow> item(key \<mapsto> JStr (strip (fix_text s)))
      | _ \<Rightarrow> item)"

definition fix_item :: "(string \<Rightarrow> string) \<Rightarrow> article \<Rightarrow> article" where
  \<comment> \<open>line 30: the inner loop over the three text fields\<close>
  "fix_item fix_text item = foldl (fix_key fix_text) item [''title'', ''content'', ''link'']"

definition required_fields :: "string list" where
  "required_fields = [''image_url'', ''title'', ''content'', ''link'']"

definition has_required :: "article \<Rightarrow> bool" where
  \<comment> \<open>lines 38-39: \<open>key in item and item[key] and isinstance(item[key], str)\<close> for
      all required keys\<close>
  "has_required item =
     list_all (\<lambda>key. case item key of None \<Rightarrow> False | Some v \<Rightarrow> truthy v \<and> is_str v)
       required_fields"

datatype error = KeyError string | AttributeError

definition norm_key :: "article \<Rightarrow> string \<Rightarrow> error + string" where
  \<comment> \<open>\<open>item[key].strip().lower()\<close>: a missing key raises KeyError, a value that is no
      string has no \<open>strip\<close>\<close>
  "norm_key item key =
     (case item key of
        None \<Rightarrow> Inl (KeyError key)
      | Some (JStr s) \<Rightarrow> Inr (lower (strip s))
      | Some _ \<Rightarrow> Inl AttributeError)"

record dedup_state =
  seen_titles :: "string set"
  seen_links :: "string set"
  unique_data :: "article list"

definition dedup_init :: dedup_state where
  "dedup_init = \<lparr> seen_titles = {}, seen_links = {}, unique_data = [] \<rparr>"

definition dedup_step :: "dedup_state \<Rightarrow> article \<Rightarrow> error + dedup_state" where
  \<comment> \<open>lines 50-57\<close>
  "dedup_step st item =
     (case norm_key item ''title'' of
        Inl e \<Rightarrow> Inl e
      | Inr title \<Rightarrow>
          (case norm_key item ''link'' of
             Inl e \<Rightarrow> Inl e
           | Inr link \<Rightarrow>
               Inr (if title \<notin> seen_titles st \<and> link \<notin> seen_links st
                    then st\<lparr>seen_titles := insert title (seen_titles st),
                            seen_links := insert link (seen_links st),
                            unique_data := unique_data st @ [item]\<rparr>
                    else st)))"

fun dedup_loop :: "dedup_state \<Rightarrow> article list \<Rightarrow> error + dedup_state" where
  "dedup_loop st [] = Inr st"
| "dedup_loop st (item # items) =
     (case dedup_step st item of Inl e \<Rightarrow> Inl e | Inr st' \<Rightarrow> dedup_loop st' items)"

definition valid_data :: "(string \<Rightarrow> string) \<Rightarrow> article list \<Rightarrow> article list" where
  \<comment> \<open>lines 29-40: the repaired records that pass the required-fields check\<close>
  "valid_data fix_text data = filter has_required (map (fix_item fix_text) data)"

definition clean_news_data :: "(string \<Rightarrow> string) \<Rightarrow> article list \<Rightarrow> error + article list" where
  "clean_news_data fix_text data =
     (case dedup_loop dedup_init (valid_data fix_text data) of
        Inl e \<Rightarrow> Inl e
      | Inr st \<Rightarrow> Inr (unique_data st))"

subsection \<open>The duplicate filter as a pure function\<close>

fun dedup :: "article list \<Rightarrow> article list \<Rightarrow> article list" where
  \<comment> \<open>\<open>dedup kept items\<close>: a record is appended to \<open>kept\<close> when neither of its keys is
      the corresponding key of a record kept before\<close>
  "dedup kept [] = kept"
| "dedup kept (x # xs) =
     (if list_all (\<lambda>y. norm_key y ''title'' \<noteq> norm_key x ''title'' \<and>
                        norm_key y ''link'' \<noteq> norm_key x ''link'') kept
      then dedup (kept @ [x]) xs else dedup kept xs)"

definition keyed :: "article \<Rightarrow> bool" where
  \<comment> \<open>title and link are strings\<close>
  "keyed a \<longleftrightarrow> (\<exists>t l. a ''title'' = Some (JStr t) \<and> a ''link'' = Some (JStr l))"

definition consistent :: "dedup_state \<Rightarrow> bool" where
  \<comment> \<open>loop invariant: the seen-sets hold exactly the keys of the records kept so far\<close>
  "consistent st \<longleftrightarrow>
     Inr ` seen_titles st = (\<lambda>a. norm_key a ''title'') ` set (unique_data st) \<and>
     Inr ` seen_links st = (\<lambda>a. norm_key a ''link'') ` set (unique_data st)"

definition article_A :: article where
  "article_A = [''title'' \<mapsto> JStr ''A'', ''link'' \<mapsto> JStr ''http://x/1'']"

definition article_a :: article where
  "article_a = [''title'' \<mapsto> JStr ''a'', ''link'' \<mapsto> JStr ''http://x/2'']"

definition full_A :: article where
  \<comment> \<open>\<open>article_A\<close> with the other two required fields\<close>
  "full_A = article_A(''content'' \<mapsto> JStr ''Texto uno.'', ''image_url'' \<mapsto> JStr ''http://x/1.png'')"

definition full_a :: article where
  "full_a = article_a(''content'' \<mapsto> JStr ''Texto dos.'', ''image_url'' \<mapsto> JStr ''http://x/2.png'')"

subsection \<open>Example inputs\<close>

definition full_B :: article where
  "full_B = [''title'' \<mapsto> JStr ''B'', ''link'' \<mapsto> JStr ''http://x/3'',
             ''content'' \<mapsto> JStr ''Texto tres.'', ''image_url'' \<mapsto> JStr ''http://x/3.png'']"

definition example_data :: "article list" where
  \<comment> \<open>a record without content and image, then two records with the same normalized
      title, then a third title\<close>
  "example_data = [article_a, full_A, full_a, full_B]"

definition three_chunk_text :: string where
  \<comment> \<open>three sentences of 300 characters: each one is a chunk of its own\<close>
  "three_chunk_text =
     replicate 300 (CHR ''a'') @ ''.'' @ replicate 300 (CHR ''b'') @ ''.'' @ replicate 300 (CHR ''c'')"

definition fails_on_b :: classifier where
  \<comment> \<open>a classifier that raises on the chunk of \<open>b\<close>s\<close>
  "fails_on_b c =
     (if c = replicate 300 (CHR ''b'') @ ''.'' then None else Some (''positive'', 0.5))"

definition split_vote :: classifier where
  \<comment> \<open>positive on the chunk of \<open>a\<close>s, negative with the same score on any other\<close>
  "split_vote c =
     (if c = replicate 300 (CHR ''a'') @ ''.'' then Some (''positive'', 0.9)
      else Some (''negative'', 0.9))"



section \<open>Properties of the string functions\<close>

lemma strip_Nil_iff: "strip s = [] \<longleftrightarrow> (\<forall>c \<in> set s. isspace c)"
proof
  assume "strip s = []"
  then have "dropWhile isspace (rev (dropWhile isspace s)) = []"
    by (simp add: strip_def)
  then have all: "\<forall>c \<in> set (dropWhile isspace s). isspace c"
    by (simp add: dropWhile_eq_Nil_conv)
  have "dropWhile isspace s = []"
  proof (cases "dropWhile isspace s")
    case Nil then show ?thesis .
  next
    case (Cons x xs)
    then have "\<not> isspace x" using hd_dropWhile[of isspace s] by simp
    moreover have "isspace x" using all Cons by simp
    ultimately show ?thesis by simp
  qed
  then show "\<forall>c \<in> set s. isspace c" by (simp add: dropWhile_eq_Nil_conv)
next
  assume "\<forall>c \<in> set s. isspace c"
  then have d: "dropWhile isspace s = []" by simp
  show "strip s = []" unfolding strip_def d by simp
qed

section \<open>The loop against the pure chunker and tally\<close>

lemma calls_classify: "calls (classify clf st) = calls st @ [current_chunk st]"
  by (simp add: classify_def Let_def split: option.splits prod.splits)

lemma current_classify: "current_chunk (classify clf st) = current_chunk st"
  by (simp add: classify_def Let_def split: option.splits prod.splits)

lemma calls_loop:
  "calls (last_chunk clf (loop clf st ss)) = calls st @ chunks_from (current_chunk st) ss"
proof (induction ss arbitrary: st)
  case Nil
  then show ?case by (simp add: last_chunk_def calls_classify)
next
  case (Cons s ss)
  show ?case
    by (simp add: Cons.IH loop_body_def calls_classify current_classify Let_def)
qed

lemma calls_process: "calls (process clf t) = chunker t"
  using calls_loop[of clf init_state "split (CHR ''.'') t"]
  by (simp add: process_def chunker_def init_state_def)

lemma successes_append:
  "successes clf (xs @ ys) = successes clf xs @ successes clf ys"
  by (simp add: successes_def List.map_filter_def)

lemma successes_single:
  "successes clf [c] = (case outcome clf c of None \<Rightarrow> [] | Some r \<Rightarrow> [r])"
  by (simp add: successes_def List.map_filter_def split: option.splits)

lemma label_sum_snoc:
  "label_sum (rs @ [(l, s)]) l' = label_sum rs l' + (if l = l' then s else 0)"
  by (simp add: label_sum_def)

lemma map_of_tally:
  "map_of (tally rs) l = (if l \<in> set labels then Some (label_sum rs l) else None)"
  by (simp add: tally_def labels_def)

lemma tally_snoc:
  "l \<in> set labels \<Longrightarrow> tally (rs @ [(l, s)]) = dict_set (tally rs) l (label_sum rs l + s)"
  by (auto simp: tally_def labels_def dict_set_def label_sum_snoc)

lemma tallied_classify:
  assumes "tallied clf st"
  shows "tallied clf (classify clf st)"
proof (cases "outcome clf (current_chunk st)")
  case None
  then have "classify clf st = st\<lparr>calls := calls st @ [current_chunk st]\<rparr>"
    using assms
    by (auto simp: classify_def outcome_def tallied_def map_of_tally Let_def
             split: option.splits prod.splits if_splits)
  then show ?thesis
    using assms None by (simp add: tallied_def successes_append successes_single)
next
  case (Some r)
  obtain l s where r: "r = (l, s)" by (cases r)
  from Some r have c: "clf (current_chunk st) = Some (l, s)" and l: "l \<in> set labels"
    by (auto simp: outcome_def split: option.splits prod.splits if_splits)
  have "classify clf st = st\<lparr>calls := calls st @ [current_chunk st],
          sentiment_scores := dict_set (sentiment_scores st) l
             (label_sum (successes clf (calls st)) l + s),
          chunk_count := chunk_count st + 1\<rparr>"
    using assms c l by (simp add: classify_def Let_def tallied_def map_of_tally)
  then show ?thesis
    using assms Some r l
    by (simp add: tallied_def successes_append successes_single tally_snoc)
qed

lemma tallied_loop_body: "tallied clf st \<Longrightarrow> tallied clf (loop_body clf st s)"
  using tallied_classify[of clf st]
  by (auto simp: loop_body_def Let_def tallied_def)

lemma tallied_loop: "tallied clf st \<Longrightarrow> tallied clf (loop clf st ss)"
  by (induction ss arbitrary: st) (simp_all add: tallied_loop_body)

lemma tallied_init: "tallied clf init_state"
  by (simp add: tallied_def init_state_def successes_def tally_def labels_def label_sum_def)

lemma tallied_process: "tallied clf (process clf t)"
  using tallied_classify[of clf "loop clf init_state (split (CHR ''.'') t)"]
        tallied_loop[OF tallied_init, of clf "split (CHR ''.'') t"]
  by (simp add: process_def last_chunk_def)

lemma scores_process:
  "sentiment_scores (process clf t) = tally (successes clf (chunker t))"
  "chunk_count (process clf t) = length (successes clf (chunker t))"
  using tallied_process[of clf t] by (simp_all add: tallied_def calls_process)

section \<open>Properties of the chunks\<close>

lemma split_not_Nil: "split sep t \<noteq> []"
  by (induction t) (auto split: list.splits)

lemma split_chars: "s \<in> set (split sep t) \<Longrightarrow> set s \<subseteq> set t - {sep}"
proof (induction t arbitrary: s)
  case Nil
  then show ?case by simp
next
  case (Cons c cs)
  show ?case
  proof (cases "c = sep")
    case True
    with Cons show ?thesis by auto
  next
    case False
    obtain w ws where w: "split sep cs = w # ws"
      using split_not_Nil[of sep cs] by (cases "split sep cs") auto
    with Cons.prems False have "s = c # w \<or> s \<in> set ws" by simp
    then show ?thesis
    proof
      assume "s = c # w"
      moreover have "set w \<subseteq> set cs - {sep}" using Cons.IH[of w] w by simp
      ultimately show ?thesis using False by auto
    next
      assume "s \<in> set ws"
      then have "set s \<subseteq> set cs - {sep}" using Cons.IH[of s] w by simp
      then show ?thesis by auto
    qed
  qed
qed

lemma chunks_from_blank:
  "\<forall>s \<in> set ss. strip s = [] \<Longrightarrow> chunks_from [] ss = []"
  by (induction ss) simp_all

lemma chunker_blank:
  assumes "\<forall>c \<in> set t. isspace c \<or> c = CHR ''.''"
  shows "chunker t = []"
proof -
  have "\<forall>s \<in> set (split (CHR ''.'') t). strip s = []"
  proof
    fix s assume "s \<in> set (split (CHR ''.'') t)"
    then have "set s \<subseteq> set t - {CHR ''.''}" by (rule split_chars)
    with assms have "\<forall>c \<in> set s. isspace c" by auto
    then show "strip s = []" by (simp add: strip_Nil_iff)
  qed
  then show ?thesis by (simp add: chunker_def chunks_from_blank)
qed

lemma chunks_from_bounded:
  assumes "cur = [] \<or> bounded S cur" and "set ss \<subseteq> S"
  shows "\<forall>c \<in> set (chunks_from cur ss). bounded S c"
  using assms
proof (induction ss arbitrary: cur)
  case Nil
  then show ?case by auto
next
  case (Cons s ss)
  from Cons.prems have S: "s \<in> S" "set ss \<subseteq> S" by auto
  show ?case
  proof (cases "strip s = []")
    case True
    then show ?thesis using Cons.IH[OF Cons.prems(1) S(2)] by simp
  next
    case ne: False
    show ?thesis
    proof (cases "length cur + length s < 500")
      case True
      then have "bounded S (cur @ s @ ''.'')" by (simp add: bounded_def)
      then show ?thesis using Cons.IH[of "cur @ s @ ''.''"] S ne True by simp
    next
      case False
      have "bounded S (s @ ''.'')" using S(1) by (auto simp: bounded_def)
      then have "\<forall>c \<in> set (chunks_from (s @ ''.'') ss). bounded S c"
        using Cons.IH[of "s @ ''.''"] S by simp
      then show ?thesis using False ne Cons.prems(1) by auto
    qed
  qed
qed

lemma packed_snoc:
  assumes "cur = [] \<or> packed S cur" "s \<in> S" "strip s \<noteq> []"
  shows "packed S (cur @ s @ ''.'')"
proof (cases "cur = []")
  case True
  have "s @ ''.'' = concat (map (\<lambda>s. s @ ''.'') [s])" by simp
  then show ?thesis using assms True unfolding packed_def
    by (intro exI[of _ "[s]"]) simp
next
  case False
  with assms obtain ws where ws: "ws \<noteq> []" "\<forall>s \<in> set ws. s \<in> S \<and> strip s \<noteq> []"
    "cur = concat (map (\<lambda>s. s @ ''.'') ws)" by (auto simp: packed_def)
  show ?thesis unfolding packed_def
    using ws assms by (intro exI[of _ "ws @ [s]"]) simp
qed

lemma chunks_from_packed:
  assumes "cur = [] \<or> packed S cur" and "set ss \<subseteq> S"
  shows "\<forall>c \<in> set (chunks_from cur ss). packed S c"
  using assms
proof (induction ss arbitrary: cur)
  case Nil
  then show ?case by auto
next
  case (Cons s ss)
  from Cons.prems have S: "s \<in> S" "set ss \<subseteq> S" by auto
  show ?case
  proof (cases "strip s = []")
    case True
    then show ?thesis using Cons.IH[OF Cons.prems(1) S(2)] by simp
  next
    case ne: False
    have a: "packed S (cur @ s @ ''.'')" using packed_snoc[OF Cons.prems(1) S(1) ne] .
    have b: "packed S (s @ ''.'')" using packed_snoc[of "[]" S s] S(1) ne by simp
    have "\<forall>c \<in> set (chunks_from (cur @ s @ ''.'') ss). packed S c"
      using Cons.IH[of "cur @ s @ ''.''"] a S by simp
    moreover have "\<forall>c \<in> set (chunks_from (s @ ''.'') ss). packed S c"
      using Cons.IH[of "s @ ''.''"] b S by simp
    ultimately show ?thesis using ne Cons.prems(1) by auto
  qed
qed

lemma packed_content:
  assumes "packed S c"
  shows "strip c \<noteq> []" and "2 \<le> length c"
proof -
  from assms obtain ws where ws: "ws \<noteq> []" "\<forall>s \<in> set ws. s \<in> S \<and> strip s \<noteq> []"
    "c = concat (map (\<lambda>s. s @ ''.'') ws)" by (auto simp: packed_def)
  then obtain w ws' where w: "ws = w # ws'" by (cases ws) auto
  with ws have sw: "strip w \<noteq> []" by simp
  then obtain x where x: "x \<in> set w" "\<not> isspace x" by (auto simp: strip_Nil_iff)
  have "x \<in> set c" using ws(3) w x by simp
  then show "strip c \<noteq> []" using x by (auto simp: strip_Nil_iff)
  have "w \<noteq> []" using sw by (auto simp: strip_def)
  then have "1 \<le> length w" by (cases w) auto
  then show "2 \<le> length c" using ws(3) w by simp
qed

section \<open>Properties of the reduction to the final label\<close>









lemma analizar_eq:
  "analizar_sentimientos_transformers t clf =
     verdict (tally (classified clf t)) (length (classified clf t))"
  by (simp add: analizar_sentimientos_transformers_def Let_def scores_process classified_def)




section \<open>The chunks passed to the classifier\<close>

lemma split_no_sep: "sep \<notin> set t \<Longrightarrow> split sep t = [t]"
  by (induction t) auto

lemma chunker_single:
  assumes "CHR ''.'' \<notin> set t" "strip t \<noteq> []"
  shows "chunker t = [t @ ''.'']"
  using assms by (simp add: chunker_def split_no_sep)

lemma strip_replicate_a: "0 < n \<Longrightarrow> strip (replicate n (CHR ''a'')) \<noteq> []"
proof -
  assume "0 < n"
  then have "CHR ''a'' \<in> set (replicate n (CHR ''a''))" by simp
  moreover have "\<not> isspace (CHR ''a'')" by (simp add: isspace_def)
  ultimately show ?thesis unfolding strip_Nil_iff by blast
qed

text \<open>
  Claim C1, as stated: every chunk passed to the classifier is shorter than 500
  characters, unless it is a single sentence longer than 500 characters. The test of line 48
  bounds the length before the terminator is appended, so a lone sentence of 499 characters
  is submitted as a chunk of exactly 500 characters, and a lone sentence of exactly 500
  characters as a chunk of 501: the claim fails on both texts.
\<close>

theorem chunk_bound_counterexample:
  "\<not> (\<forall>c \<in> set (calls (process Map.empty (replicate 499 (CHR ''a'')))).
        length c < 500 \<or> (\<exists>s. c = s @ ''.'' \<and> 500 < length s))
   \<and> \<not> (\<forall>c \<in> set (calls (process Map.empty (replicate 500 (CHR ''a'')))).
        length c < 500 \<or> (\<exists>s. c = s @ ''.'' \<and> 500 < length s))"
proof -
  have a: "calls (process Map.empty (replicate 499 (CHR ''a''))) = [replicate 499 (CHR ''a'') @ ''.'']"
    by (simp add: calls_process chunker_single strip_replicate_a)
  have b: "calls (process Map.empty (replicate 500 (CHR ''a''))) = [replicate 500 (CHR ''a'') @ ''.'']"
    by (simp add: calls_process chunker_single strip_replicate_a)
  show ?thesis unfolding a b by simp
qed

text \<open>
  Claim C1, amended: for every body text and every classifier, every chunk passed to the
  classifier has at most 500 characters, unless it is a single sentence of the text of
  500 characters or more followed by its terminator.
\<close>

theorem chunk_bound_amended:
  "\<forall>c \<in> set (calls (process clf t)).
     length c \<le> 500 \<or> (\<exists>s \<in> set (split (CHR ''.'') t). c = s @ ''.'' \<and> 500 \<le> length s)"
  using chunks_from_bounded[of "[]" "set (split (CHR ''.'') t)" "split (CHR ''.'') t"]
  by (simp add: calls_process chunker_def bounded_def)

text \<open>The amended bound at the second chunk of a text of three chunks.\<close>

theorem chunk_bound_amended_witness:
  "replicate 300 (CHR ''b'') @ ''.'' \<in> set (calls (process fails_on_b three_chunk_text)) \<and>
   (length (replicate 300 (CHR ''b'') @ ''.'') \<le> 500 \<or>
    (\<exists>s \<in> set (split (CHR ''.'') three_chunk_text).
       replicate 300 (CHR ''b'') @ ''.'' = s @ ''.'' \<and> 500 \<le> length s))"
proof -
  have m: "replicate 300 (CHR ''b'') @ ''.'' \<in> set (calls (process fails_on_b three_chunk_text))"
    by code_simp
  from chunk_bound_amended[of fails_on_b three_chunk_text, THEN bspec, OF m] m
  show ?thesis by (rule conjI[rotated])
qed

text \<open>
  Claim C10: for every body text and every classifier, every chunk passed to the
  classifier is the concatenation of one or more sentences of the text, each non-empty
  after trimming and each followed by the terminator; so the chunk is non-empty after
  trimming, and it is never the bare terminator.
\<close>

theorem submitted_chunks_nonempty:
  "\<forall>c \<in> set (calls (process clf t)).
     strip c \<noteq> [] \<and> c \<noteq> ''.'' \<and>
     (\<exists>ws. ws \<noteq> [] \<and> (\<forall>s \<in> set ws. s \<in> set (split (CHR ''.'') t) \<and> strip s \<noteq> []) \<and>
           c = concat (map (\<lambda>s. s @ ''.'') ws))"
proof
  fix c assume "c \<in> set (calls (process clf t))"
  then have p: "packed (set (split (CHR ''.'') t)) c"
    using chunks_from_packed[of "[]" "set (split (CHR ''.'') t)" "split (CHR ''.'') t"]
    by (simp add: calls_process chunker_def)
  from packed_content[OF p] have "strip c \<noteq> []" "c \<noteq> ''.''" by auto
  with p show "strip c \<noteq> [] \<and> c \<noteq> ''.'' \<and>
     (\<exists>ws. ws \<noteq> [] \<and> (\<forall>s \<in> set ws. s \<in> set (split (CHR ''.'') t) \<and> strip s \<noteq> []) \<and>
           c = concat (map (\<lambda>s. s @ ''.'') ws))"
    by (simp add: packed_def)
qed

text \<open>The property at the only chunk of a text that ends in blank sentences.\<close>

theorem submitted_chunks_nonempty_witness:
  "''Hola. Que tal.'' \<in> set (calls (process Map.empty ''Hola. Que tal. .  '')) \<and>
   (strip ''Hola. Que tal.'' \<noteq> [] \<and> ''Hola. Que tal.'' \<noteq> ''.'' \<and>
     (\<exists>ws. ws \<noteq> [] \<and>
        (\<forall>s \<in> set ws. s \<in> set (split (CHR ''.'') ''Hola. Que tal. .  '') \<and> strip s \<noteq> []) \<and>
        ''Hola. Que tal.'' = concat (map (\<lambda>s. s @ ''.'') ws)))"
proof -
  have m: "''Hola. Que tal.'' \<in> set (calls (process Map.empty ''Hola. Que tal. .  ''))"
    by code_simp
  from submitted_chunks_nonempty[of Map.empty "''Hola. Que tal. .  ''", THEN bspec, OF m] m
  show ?thesis by (rule conjI[rotated])
qed

section \<open>Failures of the classifier\<close>

lemma outcome_None: "clf c = None \<Longrightarrow> outcome clf c = None"
  by (simp add: outcome_def)

lemma successes_skip:
  "outcome clf c = None \<Longrightarrow> successes clf (cs1 @ c # cs2) = successes clf (cs1 @ cs2)"
  using successes_append[of clf cs1 "[c] @ cs2"] successes_append[of clf "[c]" cs2]
  by (simp add: successes_single successes_append)

lemma successes_all_failed:
  "\<forall>c \<in> set cs. clf c = None \<Longrightarrow> successes clf cs = []"
  by (induction cs) (simp_all add: successes_def List.map_filter_def outcome_def)

text \<open>
  Claim C3: for every text and every classifier, the chunks submitted are those of the
  chunker whatever the classifier does on earlier ones; the sums and the count at the end
  are those of the successfully classified chunks alone, and the label returned is computed
  from them; a chunk on which the classifier raises can be removed from the sequence without
  changing the successful results. No branch of the function propagates the error: it
  returns a label for every classifier. With three chunks and a failure on the second, the
  sums are those of the first and third results and the count is 2.
\<close>

theorem failed_chunks_skipped:
  "calls (process clf t) = chunker t \<and>
   sentiment_scores (process clf t) = tally (successes clf (chunker t)) \<and>
   chunk_count (process clf t) = length (successes clf (chunker t)) \<and>
   analizar_sentimientos_transformers t clf =
     verdict (tally (successes clf (chunker t))) (length (successes clf (chunker t))) \<and>
   (\<forall>cs1 c cs2. chunker t = cs1 @ c # cs2 \<and> clf c = None \<longrightarrow>
      successes clf (chunker t) = successes clf (cs1 @ cs2)) \<and>
   (\<forall>c1 c2 c3 r1 r3. chunker t = [c1, c2, c3] \<and> outcome clf c1 = Some r1 \<and>
      clf c2 = None \<and> outcome clf c3 = Some r3 \<longrightarrow>
      sentiment_scores (process clf t) = tally [r1, r3] \<and>
      chunk_count (process clf t) = 2 \<and>
      analizar_sentimientos_transformers t clf = verdict (tally [r1, r3]) 2)"
proof -
  have a: "analizar_sentimientos_transformers t clf =
     verdict (tally (successes clf (chunker t))) (length (successes clf (chunker t)))"
    using analizar_eq[of t clf] by (simp add: classified_def)
  have b: "\<forall>cs1 c cs2. chunker t = cs1 @ c # cs2 \<and> clf c = None \<longrightarrow>
      successes clf (chunker t) = successes clf (cs1 @ cs2)"
    by (auto simp: successes_skip outcome_None)
  have c: "\<forall>c1 c2 c3 r1 r3. chunker t = [c1, c2, c3] \<and> outcome clf c1 = Some r1 \<and>
      clf c2 = None \<and> outcome clf c3 = Some r3 \<longrightarrow>
      sentiment_scores (process clf t) = tally [r1, r3] \<and>
      chunk_count (process clf t) = 2 \<and>
      analizar_sentimientos_transformers t clf = verdict (tally [r1, r3]) 2"
  proof (intro allI impI)
    fix c1 c2 c3 r1 r3
    assume h: "chunker t = [c1, c2, c3] \<and> outcome clf c1 = Some r1 \<and>
      clf c2 = None \<and> outcome clf c3 = Some r3"
    then have "successes clf (chunker t) = [r1, r3]"
      by (simp add: successes_def List.map_filter_def outcome_None)
    then show "sentiment_scores (process clf t) = tally [r1, r3] \<and>
      chunk_count (process clf t) = 2 \<and>
      analizar_sentimientos_transformers t clf = verdict (tally [r1, r3]) 2"
      using a by (simp add: scores_process numeral_2_eq_2)
  qed
  show ?thesis
    using a b c by (simp add: calls_process scores_process)
qed

lemma three_chunks:
  "chunker three_chunk_text =
     [replicate 300 (CHR ''a'') @ ''.'', replicate 300 (CHR ''b'') @ ''.'',
      replicate 300 (CHR ''c'') @ ''.'']"
  by code_simp

text \<open>Three chunks of 300 characters, with a classifier that raises on the second.\<close>

theorem failed_chunks_skipped_witness:
  "chunker three_chunk_text =
     [replicate 300 (CHR ''a'') @ ''.'', replicate 300 (CHR ''b'') @ ''.'',
      replicate 300 (CHR ''c'') @ ''.''] \<and>
   outcome fails_on_b (replicate 300 (CHR ''a'') @ ''.'') = Some (''positive'', 0.5) \<and>
   fails_on_b (replicate 300 (CHR ''b'') @ ''.'') = None \<and>
   outcome fails_on_b (replicate 300 (CHR ''c'') @ ''.'') = Some (''positive'', 0.5) \<and>
   sentiment_scores (process fails_on_b three_chunk_text) =
     tally [(''positive'', 0.5), (''positive'', 0.5)] \<and>
   chunk_count (process fails_on_b three_chunk_text) = 2 \<and>
   analizar_sentimientos_transformers three_chunk_text fails_on_b =
     verdict (tally [(''positive'', 0.5), (''positive'', 0.5)]) 2"
proof -
  have h: "chunker three_chunk_text =
     [replicate 300 (CHR ''a'') @ ''.'', replicate 300 (CHR ''b'') @ ''.'',
      replicate 300 (CHR ''c'') @ ''.''] \<and>
   outcome fails_on_b (replicate 300 (CHR ''a'') @ ''.'') = Some (''positive'', 0.5) \<and>
   fails_on_b (replicate 300 (CHR ''b'') @ ''.'') = None \<and>
   outcome fails_on_b (replicate 300 (CHR ''c'') @ ''.'') = Some (''positive'', 0.5)"
    by (simp add: three_chunks outcome_def fails_on_b_def labels_def)
  from failed_chunks_skipped[of fails_on_b three_chunk_text] h
  show ?thesis by blast
qed

text \<open>
  Claim C4: for every text and every classifier, when no chunk is classified successfully
  the result is \<open>Neutro\<close>: in particular when the classifier raises on every chunk, when
  every sentence of the text is empty after trimming (then nothing is submitted at all),
  when the text consists of whitespace and terminators only, and when the text is empty.
\<close>

theorem no_classified_chunk_neutro:
  "(successes clf (chunker t) = [] \<longrightarrow> analizar_sentimientos_transformers t clf = ''Neutro'') \<and>
   ((\<forall>c \<in> set (chunker t). clf c = None) \<longrightarrow>
      analizar_sentimientos_transformers t clf = ''Neutro'') \<and>
   ((\<forall>s \<in> set (split (CHR ''.'') t). strip s = []) \<longrightarrow>
      calls (process clf t) = [] \<and> analizar_sentimientos_transformers t clf = ''Neutro'') \<and>
   ((\<forall>c \<in> set t. isspace c \<or> c = CHR ''.'') \<longrightarrow>
      calls (process clf t) = [] \<and> analizar_sentimientos_transformers t clf = ''Neutro'') \<and>
   analizar_sentimientos_transformers [] clf = ''Neutro''"
proof -
  have z: "successes clf (chunker u) = [] \<Longrightarrow>
      analizar_sentimientos_transformers u clf = ''Neutro''" for u
    using analizar_eq[of u clf] by (simp add: classified_def verdict_def)
  have e: "chunker u = [] \<Longrightarrow> successes clf (chunker u) = []" for u
    by (simp add: successes_def List.map_filter_def)
  have 1: "(\<forall>c \<in> set (chunker t). clf c = None) \<longrightarrow>
      analizar_sentimientos_transformers t clf = ''Neutro''"
    using z[of t] successes_all_failed[of "chunker t" clf] by blast
  have 2: "(\<forall>s \<in> set (split (CHR ''.'') t). strip s = []) \<longrightarrow>
      calls (process clf t) = [] \<and> analizar_sentimientos_transformers t clf = ''Neutro''"
  proof
    assume "\<forall>s \<in> set (split (CHR ''.'') t). strip s = []"
    then have "chunker t = []" by (simp add: chunker_def chunks_from_blank)
    then show "calls (process clf t) = [] \<and> analizar_sentimientos_transformers t clf = ''Neutro''"
      using z[of t] e[of t] by (simp add: calls_process)
  qed
  have 3: "(\<forall>c \<in> set t. isspace c \<or> c = CHR ''.'') \<longrightarrow>
      calls (process clf t) = [] \<and> analizar_sentimientos_transformers t clf = ''Neutro''"
  proof
    assume "\<forall>c \<in> set t. isspace c \<or> c = CHR ''.''"
    then have "chunker t = []" by (rule chunker_blank)
    then show "calls (process clf t) = [] \<and> analizar_sentimientos_transformers t clf = ''Neutro''"
      using z[of t] e[of t] by (simp add: calls_process)
  qed
  have "chunker [] = []" by (simp add: chunker_def strip_def)
  then have 4: "analizar_sentimientos_transformers [] clf = ''Neutro''"
    using z[of "[]"] e[of "[]"] by simp
  show ?thesis using z[of t] 1 2 3 4 by blast
qed

text \<open>A classifier that always raises, and a text of blank sentences.\<close>

theorem no_classified_chunk_neutro_witness:
  "chunker ''Hola. Que tal.'' = [''Hola. Que tal.''] \<and>
   analizar_sentimientos_transformers ''Hola. Que tal.'' Map.empty = ''Neutro'' \<and>
   list_all (\<lambda>c. isspace c \<or> c = CHR ''.'') '' .  . '' \<and>
   calls (process split_vote '' .  . '') = [] \<and>
   analizar_sentimientos_transformers '' .  . '' split_vote = ''Neutro''"
proof -
  have a: "\<forall>c \<in> set (chunker ''Hola. Que tal.''). Map.empty c = (None :: (string \<times> real) option)"
    by simp
  have b: "\<forall>c \<in> set '' .  . ''. isspace c \<or> c = CHR ''.''"
    by (simp add: isspace_def)
  have c: "chunker ''Hola. Que tal.'' = [''Hola. Que tal.'']"
    by code_simp
  from no_classified_chunk_neutro[of Map.empty "''Hola. Que tal.''"] a
  have 1: "analizar_sentimientos_transformers ''Hola. Que tal.'' Map.empty = ''Neutro''"
    by blast
  from no_classified_chunk_neutro[of split_vote "'' .  . ''"] b
  have 2: "calls (process split_vote '' .  . '') = [] \<and>
           analizar_sentimientos_transformers '' .  . '' split_vote = ''Neutro''"
    by blast
  from b have 3: "list_all (\<lambda>c. isspace c \<or> c = CHR ''.'') '' .  . ''"
    by (simp only: list_all_iff)
  from c 1 2 3 show ?thesis by blast
qed

section \<open>The final label\<close>












section \<open>Properties of the normalizer\<close>

lemma dropWhile_id: "xs = [] \<or> \<not> P (hd xs) \<Longrightarrow> dropWhile P xs = xs"
  by (cases xs) auto

lemma dropWhile_head: "dropWhile P xs = [] \<or> \<not> P (hd (dropWhile P xs))"
  using hd_dropWhile[of P xs] by blast

lemma last_dropWhile_eq: "dropWhile P xs \<noteq> [] \<Longrightarrow> last (dropWhile P xs) = last xs"
  by (induction xs) (auto split: if_splits)

lemma strip_ends:
  "strip s = [] \<or> (\<not> isspace (hd (strip s)) \<and> \<not> isspace (last (strip s)))"
proof (cases "strip s = []")
  case True
  then show ?thesis by simp
next
  case False
  let ?u = "dropWhile isspace s"
  let ?v = "dropWhile isspace (rev ?u)"
  have s: "strip s = rev ?v" by (simp add: strip_def)
  with False have v: "?v \<noteq> []" by simp
  have u: "?u \<noteq> []"
  proof
    assume e: "?u = []"
    have "?v = []" unfolding e by simp
    with v show False by contradiction
  qed
  have "\<not> isspace (hd ?v)" using dropWhile_head[of isspace "rev ?u"] v by blast
  then have l: "\<not> isspace (last (strip s))" using s v by (simp add: last_rev)
  have "last ?v = last (rev ?u)" using v by (rule last_dropWhile_eq)
  also have "\<dots> = hd ?u" using u by (simp add: last_rev)
  finally have "hd (strip s) = hd ?u" using s v by (simp add: hd_rev)
  moreover have "\<not> isspace (hd ?u)" using dropWhile_head[of isspace s] u by blast
  ultimately show ?thesis using l by simp
qed

lemma strip_fixed:
  assumes "s = [] \<or> (\<not> isspace (hd s) \<and> \<not> isspace (last s))"
  shows "strip s = s"
proof (cases "s = []")
  case True
  then show ?thesis by (simp add: strip_def)
next
  case False
  with assms have h: "\<not> isspace (hd s)" and l: "\<not> isspace (last s)" by auto
  have 1: "dropWhile isspace s = s" using h by (simp add: dropWhile_id)
  have "hd (rev s) = last s" using False by (simp add: hd_rev)
  then have 2: "dropWhile isspace (rev s) = rev s" using l by (simp add: dropWhile_id)
  show ?thesis unfolding strip_def 1 2 by simp
qed

lemma strip_strip: "strip (strip s) = strip s"
  using strip_ends[of s] by (rule strip_fixed)

lemma fix_key_apply:
  "fix_key fix a k k' =
     (if k' = k then (case a k of Some (JStr s) \<Rightarrow> Some (JStr (strip (fix s))) | v \<Rightarrow> v)
      else a k')"
  by (cases "a k"; cases "the (a k)") (simp_all add: fix_key_def)

lemma fix_item_apply:
  "fix_item fix a k =
     (if k \<in> {''title'', ''content'', ''link''}
      then (case a k of Some (JStr s) \<Rightarrow> Some (JStr (strip (fix s))) | v \<Rightarrow> v)
      else a k)"
  by (simp add: fix_item_def fix_key_apply)

lemma has_required_iff:
  "has_required a \<longleftrightarrow> (\<forall>k \<in> set required_fields. \<exists>s. a k = Some (JStr s) \<and> s \<noteq> [])"
proof -
  have "(case a k of None \<Rightarrow> False | Some v \<Rightarrow> truthy v \<and> is_str v) \<longleftrightarrow>
        (\<exists>s. a k = Some (JStr s) \<and> s \<noteq> [])" for k
    by (cases "a k"; cases "the (a k)") auto
  then show ?thesis by (simp add: has_required_def list_all_iff)
qed

lemma has_required_keyed: "has_required a \<Longrightarrow> keyed a"
  by (auto simp: has_required_iff keyed_def required_fields_def)

lemma keyed_norm_key:
  "keyed a \<Longrightarrow> \<exists>t l. norm_key a ''title'' = Inr t \<and> norm_key a ''link'' = Inr l"
  by (auto simp: keyed_def norm_key_def)

lemma seen_iff:
  assumes "consistent st"
  shows "t \<notin> seen_titles st \<longleftrightarrow> (\<forall>y \<in> set (unique_data st). norm_key y ''title'' \<noteq> Inr t)"
    and "l \<notin> seen_links st \<longleftrightarrow> (\<forall>y \<in> set (unique_data st). norm_key y ''link'' \<noteq> Inr l)"
proof -
  have "t \<notin> seen_titles st \<longleftrightarrow> Inr t \<notin> (Inr ` seen_titles st :: (error + string) set)"
    by auto
  also have "\<dots> \<longleftrightarrow> Inr t \<notin> (\<lambda>a. norm_key a ''title'') ` set (unique_data st)"
    using assms by (simp add: consistent_def)
  finally show "t \<notin> seen_titles st \<longleftrightarrow> (\<forall>y \<in> set (unique_data st). norm_key y ''title'' \<noteq> Inr t)"
    by (auto simp: image_iff)
  have "l \<notin> seen_links st \<longleftrightarrow> Inr l \<notin> (Inr ` seen_links st :: (error + string) set)"
    by auto
  also have "\<dots> \<longleftrightarrow> Inr l \<notin> (\<lambda>a. norm_key a ''link'') ` set (unique_data st)"
    using assms by (simp add: consistent_def)
  finally show "l \<notin> seen_links st \<longleftrightarrow> (\<forall>y \<in> set (unique_data st). norm_key y ''link'' \<noteq> Inr l)"
    by (auto simp: image_iff)
qed

lemma dedup_step_cases:
  assumes "consistent st" "norm_key x ''title'' = Inr t" "norm_key x ''link'' = Inr l"
  shows "dedup_step st x =
     Inr (if \<forall>y \<in> set (unique_data st). norm_key y ''title'' \<noteq> Inr t \<and> norm_key y ''link'' \<noteq> Inr l
          then st\<lparr>seen_titles := insert t (seen_titles st),
                  seen_links := insert l (seen_links st),
                  unique_data := unique_data st @ [x]\<rparr>
          else st)"
proof -
  have "(t \<notin> seen_titles st \<and> l \<notin> seen_links st) \<longleftrightarrow>
        (\<forall>y \<in> set (unique_data st). norm_key y ''title'' \<noteq> Inr t \<and> norm_key y ''link'' \<noteq> Inr l)"
    using seen_iff(1)[OF assms(1), of t] seen_iff(2)[OF assms(1), of l] by blast
  then show ?thesis using assms(2,3) by (simp add: dedup_step_def)
qed

lemma dedup_step_keyed:
  assumes "keyed x" "consistent st"
  shows "\<exists>st'. dedup_step st x = Inr st' \<and> consistent st' \<and>
           unique_data st' = dedup (unique_data st) [x]"
proof -
  from keyed_norm_key[OF assms(1)] obtain t l where
    k: "norm_key x ''title'' = Inr t" "norm_key x ''link'' = Inr l" by blast
  note d = dedup_step_cases[OF assms(2) k]
  show ?thesis
  proof (cases "\<forall>y \<in> set (unique_data st).
                  norm_key y ''title'' \<noteq> Inr t \<and> norm_key y ''link'' \<noteq> Inr l")
    case True
    let ?st = "st\<lparr>seen_titles := insert t (seen_titles st),
                  seen_links := insert l (seen_links st),
                  unique_data := unique_data st @ [x]\<rparr>"
    have s: "dedup_step st x = Inr ?st" using d True by simp
    have c: "consistent ?st" using assms(2) k by (simp add: consistent_def)
    have "dedup (unique_data st) [x] = unique_data st @ [x]"
      using True k by (simp add: list_all_iff)
    with s c show ?thesis by simp
  next
    case False
    have s: "dedup_step st x = Inr st" using d False by simp
    have "dedup (unique_data st) [x] = unique_data st"
      using False k by (simp add: list_all_iff)
    with s assms(2) show ?thesis by simp
  qed
qed

lemma dedup_append: "dedup kept (xs @ ys) = dedup (dedup kept xs) ys"
  by (induction xs arbitrary: kept) simp_all

lemma dedup_Cons: "dedup kept (x # xs) = dedup (dedup kept [x]) xs"
  using dedup_append[of kept "[x]" xs] by simp

lemma dedup_loop_keyed:
  assumes "\<forall>x \<in> set xs. keyed x" "consistent st"
  shows "\<exists>st'. dedup_loop st xs = Inr st' \<and> consistent st' \<and>
           unique_data st' = dedup (unique_data st) xs"
  using assms
proof (induction xs arbitrary: st)
  case Nil
  then show ?case by simp
next
  case (Cons x xs)
  from Cons.prems have kx: "keyed x" and kxs: "\<forall>x \<in> set xs. keyed x" by auto
  from dedup_step_keyed[OF kx Cons.prems(2)] obtain st1 where
    s1: "dedup_step st x = Inr st1" "consistent st1"
        "unique_data st1 = dedup (unique_data st) [x]" by blast
  from Cons.IH[OF kxs s1(2)] obtain st2 where
    s2: "dedup_loop st1 xs = Inr st2" "consistent st2"
        "unique_data st2 = dedup (unique_data st1) xs" by blast
  have "dedup_loop st (x # xs) = Inr st2" using s1(1) s2(1) by simp
  moreover have "unique_data st2 = dedup (unique_data st) (x # xs)"
    using s2(3) s1(3) dedup_Cons[of "unique_data st" x xs] by simp
  ultimately show ?case using s2(2) by blast
qed

lemma consistent_init: "consistent dedup_init"
  by (simp add: consistent_def dedup_init_def)

lemma valid_data_keyed: "\<forall>x \<in> set (valid_data ftfy data). keyed x"
  by (simp add: valid_data_def has_required_keyed)

lemma clean_news_data_eq:
  "clean_news_data ftfy data = Inr (dedup [] (valid_data ftfy data))"
proof -
  from dedup_loop_keyed[OF valid_data_keyed consistent_init, of ftfy data]
  obtain st where "dedup_loop dedup_init (valid_data ftfy data) = Inr st"
    "unique_data st = dedup (unique_data dedup_init) (valid_data ftfy data)" by blast
  then show ?thesis by (simp add: clean_news_data_def dedup_init_def)
qed

lemma dedup_extends: "\<exists>zs. dedup kept xs = kept @ zs \<and> subseq zs xs"
proof (induction xs arbitrary: kept)
  case Nil
  then show ?case by simp
next
  case (Cons x xs)
  show ?case
  proof (cases "list_all (\<lambda>y. norm_key y ''title'' \<noteq> norm_key x ''title'' \<and>
                        norm_key y ''link'' \<noteq> norm_key x ''link'') kept")
    case True
    from Cons.IH[of "kept @ [x]"] obtain zs where
      "dedup (kept @ [x]) xs = (kept @ [x]) @ zs" "subseq zs xs" by blast
    then have "dedup kept (x # xs) = kept @ (x # zs) \<and> subseq (x # zs) (x # xs)"
      using True by simp
    then show ?thesis by blast
  next
    case False
    from Cons.IH[of kept] obtain zs where
      "dedup kept xs = kept @ zs" "subseq zs xs" by blast
    then have "dedup kept (x # xs) = kept @ zs \<and> subseq zs (x # xs)"
      using False by (simp add: list_emb_Cons)
    then show ?thesis by blast
  qed
qed

lemma dedup_distinct:
  assumes "distinct (map (\<lambda>a. norm_key a ''title'') kept)"
          "distinct (map (\<lambda>a. norm_key a ''link'') kept)"
  shows "distinct (map (\<lambda>a. norm_key a ''title'') (dedup kept xs)) \<and>
         distinct (map (\<lambda>a. norm_key a ''link'') (dedup kept xs))"
  using assms
proof (induction xs arbitrary: kept)
  case Nil
  then show ?case by simp
next
  case (Cons x xs)
  show ?case
  proof (cases "list_all (\<lambda>y. norm_key y ''title'' \<noteq> norm_key x ''title'' \<and>
                        norm_key y ''link'' \<noteq> norm_key x ''link'') kept")
    case True
    then have "distinct (map (\<lambda>a. norm_key a ''title'') (kept @ [x]))"
              "distinct (map (\<lambda>a. norm_key a ''link'') (kept @ [x]))"
      using Cons.prems by (auto simp: list_all_iff)
    from Cons.IH[OF this] True show ?thesis by simp
  next
    case False
    from Cons.IH[OF Cons.prems] False show ?thesis by simp
  qed
qed

lemma dedup_keeps_distinct:
  assumes "distinct (map (\<lambda>a. norm_key a ''title'') (kept @ xs))"
          "distinct (map (\<lambda>a. norm_key a ''link'') (kept @ xs))"
  shows "dedup kept xs = kept @ xs"
  using assms
proof (induction xs arbitrary: kept)
  case Nil
  then show ?case by simp
next
  case (Cons x xs)
  have t: "list_all (\<lambda>y. norm_key y ''title'' \<noteq> norm_key x ''title'' \<and>
                        norm_key y ''link'' \<noteq> norm_key x ''link'') kept"
    using Cons.prems by (auto simp: list_all_iff image_iff)
  have "dedup (kept @ [x]) xs = (kept @ [x]) @ xs"
    using Cons.IH[of "kept @ [x]"] Cons.prems by simp
  then show ?case using t by simp
qed

lemma dedup_subset: "set (dedup kept xs) \<subseteq> set kept \<union> set xs"
proof -
  from dedup_extends[of kept xs] obtain zs where
    z: "dedup kept xs = kept @ zs" "subseq zs xs" by blast
  have "set zs \<subseteq> set xs"
  proof
    fix a assume "a \<in> set zs"
    with z(2) show "a \<in> set xs" by (auto elim: list_emb_set)
  qed
  with z(1) show ?thesis by auto
qed

lemma dedup_loop_append:
  "dedup_loop st (xs @ ys) =
     (case dedup_loop st xs of Inl e \<Rightarrow> Inl e | Inr st' \<Rightarrow> dedup_loop st' ys)"
  by (induction xs arbitrary: st) (simp_all split: sum.splits)

lemma valid_data_required: "\<forall>a \<in> set (valid_data ftfy data). has_required a"
  by (simp add: valid_data_def)

lemma valid_data_image:
  "a \<in> set (valid_data ftfy data) \<Longrightarrow> \<exists>a0. a = fix_item ftfy a0"
  by (auto simp: valid_data_def)

lemma clean_subset:
  "clean_news_data ftfy data = Inr out \<Longrightarrow> set out \<subseteq> set (valid_data ftfy data)"
  using dedup_subset[of "[]" "valid_data ftfy data"] by (simp add: clean_news_data_eq)

text \<open>
  Claim C9: for every input sequence and every repair function, the normalizer returns a
  list (it raises nothing), and in every record of it the four required fields are present,
  are strings and are non-empty; \<open>title\<close>, \<open>content\<close> and \<open>link\<close> are moreover
  the repaired and trimmed values (trimming them again changes nothing).
\<close>

theorem required_fields_invariant:
  "\<exists>out. clean_news_data ftfy data = Inr out \<and>
     (\<forall>a \<in> set out. \<forall>k \<in> set required_fields. \<exists>s. a k = Some (JStr s) \<and> s \<noteq> []) \<and>
     (\<forall>a \<in> set out. \<forall>k \<in> {''title'', ''content'', ''link''}.
        \<exists>s. a k = Some (JStr s) \<and> strip s = s)"
proof -
  let ?out = "dedup [] (valid_data ftfy data)"
  have c: "clean_news_data ftfy data = Inr ?out" by (rule clean_news_data_eq)
  have sub: "set ?out \<subseteq> set (valid_data ftfy data)" using clean_subset[OF c] .
  have 1: "\<forall>a \<in> set ?out. \<forall>k \<in> set required_fields. \<exists>s. a k = Some (JStr s) \<and> s \<noteq> []"
    using sub valid_data_required[of ftfy data] by (auto simp: has_required_iff)
  have 2: "\<forall>a \<in> set ?out. \<forall>k \<in> {''title'', ''content'', ''link''}.
        \<exists>s. a k = Some (JStr s) \<and> strip s = s"
  proof (intro ballI)
    fix a k assume a: "a \<in> set ?out" and k: "k \<in> {''title'', ''content'', ''link''}"
    from a sub obtain a0 where a0: "a = fix_item ftfy a0"
      using valid_data_image[of a ftfy data] by blast
    from k have "k \<in> set required_fields" by (auto simp: required_fields_def)
    with 1 a obtain s where s: "a k = Some (JStr s)" by blast
    have "a k = (case a0 k of Some (JStr s) \<Rightarrow> Some (JStr (strip (ftfy s))) | v \<Rightarrow> v)"
      using k by (simp only: a0 fix_item_apply if_True)
    with s obtain s0 where "s = strip (ftfy s0)"
      by (cases "a0 k"; cases "the (a0 k)") auto
    then have "strip s = s" by (simp add: strip_strip)
    with s show "\<exists>s. a k = Some (JStr s) \<and> strip s = s" by blast
  qed
  from c 1 2 show ?thesis by blast
qed

text \<open>
  Claim C8: for every input sequence, any two records at different positions of the
  normalizer's output differ in the lower-cased, trimmed title and differ in the
  lower-cased, trimmed link (both keys exist for every record of the output).
\<close>

theorem dedup_invariant:
  "\<exists>out. clean_news_data ftfy data = Inr out \<and>
     (\<forall>i j. i < length out \<and> j < length out \<and> i \<noteq> j \<longrightarrow>
        norm_key (out ! i) ''title'' \<noteq> norm_key (out ! j) ''title'' \<and>
        norm_key (out ! i) ''link'' \<noteq> norm_key (out ! j) ''link'') \<and>
     (\<forall>a \<in> set out. \<exists>t l.
        a ''title'' = Some (JStr t) \<and> norm_key a ''title'' = Inr (lower (strip t)) \<and>
        a ''link'' = Some (JStr l) \<and> norm_key a ''link'' = Inr (lower (strip l)))"
proof -
  let ?out = "dedup [] (valid_data ftfy data)"
  have c: "clean_news_data ftfy data = Inr ?out" by (rule clean_news_data_eq)
  have d: "distinct (map (\<lambda>a. norm_key a ''title'') ?out)"
          "distinct (map (\<lambda>a. norm_key a ''link'') ?out)"
    using dedup_distinct[of "[]" "valid_data ftfy data"] by simp_all
  have 1: "\<forall>i j. i < length ?out \<and> j < length ?out \<and> i \<noteq> j \<longrightarrow>
        norm_key (?out ! i) ''title'' \<noteq> norm_key (?out ! j) ''title'' \<and>
        norm_key (?out ! i) ''link'' \<noteq> norm_key (?out ! j) ''link''"
  proof (intro allI impI)
    fix i j assume h: "i < length ?out \<and> j < length ?out \<and> i \<noteq> j"
    then have "map (\<lambda>a. norm_key a ''title'') ?out ! i \<noteq> map (\<lambda>a. norm_key a ''title'') ?out ! j"
      using d(1) by (simp add: nth_eq_iff_index_eq del: nth_map)
    moreover from h have "map (\<lambda>a. norm_key a ''link'') ?out ! i \<noteq> map (\<lambda>a. norm_key a ''link'') ?out ! j"
      using d(2) by (simp add: nth_eq_iff_index_eq del: nth_map)
    ultimately show "norm_key (?out ! i) ''title'' \<noteq> norm_key (?out ! j) ''title'' \<and>
        norm_key (?out ! i) ''link'' \<noteq> norm_key (?out ! j) ''link''"
      using h by simp
  qed
  have 2: "\<forall>a \<in> set ?out. \<exists>t l.
        a ''title'' = Some (JStr t) \<and> norm_key a ''title'' = Inr (lower (strip t)) \<and>
        a ''link'' = Some (JStr l) \<and> norm_key a ''link'' = Inr (lower (strip l))"
  proof
    fix a assume "a \<in> set ?out"
    then have "keyed a" using clean_subset[OF c] valid_data_keyed[of ftfy data] by blast
    then show "\<exists>t l.
        a ''title'' = Some (JStr t) \<and> norm_key a ''title'' = Inr (lower (strip t)) \<and>
        a ''link'' = Some (JStr l) \<and> norm_key a ''link'' = Inr (lower (strip l))"
      by (auto simp: keyed_def norm_key_def)
  qed
  from c 1 2 show ?thesis by blast
qed

lemma fix_item_idem:
  assumes "\<forall>s. strip (ftfy (strip (ftfy s))) = strip (ftfy s)"
  shows "fix_item ftfy (fix_item ftfy a) = fix_item ftfy a"
proof
  fix k
  show "fix_item ftfy (fix_item ftfy a) k = fix_item ftfy a k"
    using assms by (cases "a k"; cases "the (a k)") (simp_all add: fix_item_apply)
qed

lemma valid_data_fixed:
  "map (fix_item ftfy) xs = xs \<Longrightarrow> filter has_required xs = xs \<Longrightarrow> valid_data ftfy xs = xs"
  by (simp add: valid_data_def)

text \<open>
  Claim C7: if the repair function followed by trimming is idempotent, then running the
  normalizer on its own output returns that output: the repair step changes no record, the
  required-fields filter drops none, and the duplicate filter drops none.
\<close>

theorem normalizer_idempotent:
  assumes "\<forall>s. strip (ftfy (strip (ftfy s))) = strip (ftfy s)"
  shows "\<exists>out. clean_news_data ftfy data = Inr out \<and>
     map (fix_item ftfy) out = out \<and> filter has_required out = out \<and>
     valid_data ftfy out = out \<and> clean_news_data ftfy out = Inr out"
proof -
  let ?out = "dedup [] (valid_data ftfy data)"
  have c: "clean_news_data ftfy data = Inr ?out" by (rule clean_news_data_eq)
  have sub: "set ?out \<subseteq> set (valid_data ftfy data)" using clean_subset[OF c] .
  have "\<forall>a \<in> set ?out. fix_item ftfy a = a"
  proof
    fix a assume "a \<in> set ?out"
    with sub obtain a0 where "a = fix_item ftfy a0"
      using valid_data_image[of a ftfy data] by blast
    then show "fix_item ftfy a = a" using fix_item_idem[OF assms] by simp
  qed
  then have 1: "map (fix_item ftfy) ?out = ?out" by (simp add: map_idI)
  have "\<forall>a \<in> set ?out. has_required a"
    using sub valid_data_required[of ftfy data] by blast
  then have 2: "filter has_required ?out = ?out" by simp
  have 3: "valid_data ftfy ?out = ?out" using 1 2 by (rule valid_data_fixed)
  have d: "distinct (map (\<lambda>a. norm_key a ''title'') ?out)"
          "distinct (map (\<lambda>a. norm_key a ''link'') ?out)"
    using dedup_distinct[of "[]" "valid_data ftfy data"] by simp_all
  have "dedup [] ?out = ?out"
    using dedup_keeps_distinct[of "[]" ?out] d by simp
  then have 4: "clean_news_data ftfy ?out = Inr ?out"
    using clean_news_data_eq[of ftfy ?out] 3 by simp
  from c 1 2 3 4 show ?thesis by blast
qed

subsection \<open>The example records\<close>

lemma strip_examples:
  "strip ''A'' = ''A''" "strip ''a'' = ''a''" "strip ''B'' = ''B''"
  "strip ''http://x/1'' = ''http://x/1''" "strip ''http://x/2'' = ''http://x/2''"
  "strip ''http://x/3'' = ''http://x/3''"
  "strip ''Texto uno.'' = ''Texto uno.''" "strip ''Texto dos.'' = ''Texto dos.''"
  "strip ''Texto tres.'' = ''Texto tres.''"
  by code_simp+

lemma lower_examples:
  "lower ''A'' = ''a''" "lower ''a'' = ''a''" "lower ''B'' = ''b''"
  "lower ''http://x/1'' = ''http://x/1''" "lower ''http://x/2'' = ''http://x/2''"
  "lower ''http://x/3'' = ''http://x/3''"
  by code_simp+

lemma fix_examples:
  "fix_item (\<lambda>s. s) full_A = full_A" "fix_item (\<lambda>s. s) full_a = full_a"
  "fix_item (\<lambda>s. s) full_B = full_B" "fix_item (\<lambda>s. s) article_a = article_a"
  by (rule ext, simp add: fix_item_apply full_A_def full_a_def full_B_def article_A_def
        article_a_def strip_examples)+

lemma required_examples:
  "has_required full_A" "has_required full_a" "has_required full_B" "\<not> has_required article_a"
  by (simp_all add: has_required_def required_fields_def full_A_def full_a_def full_B_def
        article_A_def article_a_def)

lemma key_examples:
  "norm_key full_A ''title'' = Inr ''a''" "norm_key full_A ''link'' = Inr ''http://x/1''"
  "norm_key full_a ''title'' = Inr ''a''" "norm_key full_a ''link'' = Inr ''http://x/2''"
  "norm_key full_B ''title'' = Inr ''b''" "norm_key full_B ''link'' = Inr ''http://x/3''"
  "norm_key article_A ''title'' = Inr ''a''" "norm_key article_A ''link'' = Inr ''http://x/1''"
  "norm_key article_a ''title'' = Inr ''a''" "norm_key article_a ''link'' = Inr ''http://x/2''"
  by (simp_all add: norm_key_def full_A_def full_a_def full_B_def article_A_def article_a_def
        strip_examples lower_examples)

lemma valid_example: "valid_data (\<lambda>s. s) example_data = [full_A, full_a, full_B]"
  by (simp add: valid_data_def example_data_def fix_examples required_examples)

lemma loop_example:
  "dedup_loop dedup_init [full_A, full_a, full_B] =
     Inr \<lparr>seen_titles = {''b'', ''a''}, seen_links = {''http://x/3'', ''http://x/1''},
          unique_data = [full_A, full_B]\<rparr>"
  by (simp add: dedup_init_def dedup_step_def key_examples)

lemma clean_example: "clean_news_data (\<lambda>s. s) example_data = Inr [full_A, full_B]"
  unfolding clean_news_data_def valid_example loop_example by simp

lemma clean_example_again: "clean_news_data (\<lambda>s. s) [full_A, full_B] = Inr [full_A, full_B]"
  by (simp add: clean_news_data_def valid_data_def fix_examples required_examples
       dedup_init_def dedup_step_def key_examples)

text \<open>
  The invariant on the output of the example input, whose first record lacks two fields.
\<close>

theorem required_fields_invariant_witness:
  "clean_news_data (\<lambda>s. s) example_data = Inr [full_A, full_B] \<and>
   (\<exists>s. full_A ''image_url'' = Some (JStr s) \<and> s \<noteq> []) \<and>
   (\<exists>s. full_A ''title'' = Some (JStr s) \<and> s \<noteq> []) \<and>
   (\<exists>s. full_B ''content'' = Some (JStr s) \<and> s \<noteq> []) \<and>
   (\<exists>s. full_B ''link'' = Some (JStr s) \<and> strip s = s)"
proof -
  from required_fields_invariant[of "\<lambda>s. s" example_data]
  have r: "\<forall>a \<in> set [full_A, full_B]. \<forall>k \<in> set required_fields.
             \<exists>s. a k = Some (JStr s) \<and> s \<noteq> []"
    and t: "\<forall>a \<in> set [full_A, full_B]. \<forall>k \<in> {''title'', ''content'', ''link''}.
             \<exists>s. a k = Some (JStr s) \<and> strip s = s"
    unfolding clean_example by simp_all
  from r have "\<exists>s. full_A ''image_url'' = Some (JStr s) \<and> s \<noteq> []"
    "\<exists>s. full_A ''title'' = Some (JStr s) \<and> s \<noteq> []"
    "\<exists>s. full_B ''content'' = Some (JStr s) \<and> s \<noteq> []"
    by (simp_all add: required_fields_def)
  moreover from t have "\<exists>s. full_B ''link'' = Some (JStr s) \<and> strip s = s"
    by simp
  ultimately show ?thesis by (simp add: clean_example)
qed

text \<open>
  The two records of the output of the example input.
\<close>

theorem dedup_invariant_witness:
  "clean_news_data (\<lambda>s. s) example_data = Inr [full_A, full_B] \<and>
   norm_key ([full_A, full_B] ! 0) ''title'' \<noteq> norm_key ([full_A, full_B] ! 1) ''title'' \<and>
   norm_key ([full_A, full_B] ! 0) ''link'' \<noteq> norm_key ([full_A, full_B] ! 1) ''link''"
proof -
  from dedup_invariant[of "\<lambda>s. s" example_data]
  have "\<forall>i j. i < length [full_A, full_B] \<and> j < length [full_A, full_B] \<and> i \<noteq> j \<longrightarrow>
        norm_key ([full_A, full_B] ! i) ''title'' \<noteq> norm_key ([full_A, full_B] ! j) ''title'' \<and>
        norm_key ([full_A, full_B] ! i) ''link'' \<noteq> norm_key ([full_A, full_B] ! j) ''link''"
    unfolding clean_example by blast
  from this[rule_format, of 0 1] show ?thesis by (simp add: clean_example)
qed

text \<open>
  With the identity as repair function (trimming is idempotent), on the example input.
\<close>

theorem normalizer_idempotent_witness:
  "(\<forall>s. strip ((\<lambda>s. s) (strip ((\<lambda>s. s) s))) = strip ((\<lambda>s. s) s)) \<and>
   clean_news_data (\<lambda>s. s) example_data = Inr [full_A, full_B] \<and>
   clean_news_data (\<lambda>s. s) [full_A, full_B] = Inr [full_A, full_B]"
proof -
  have h: "\<forall>s. strip ((\<lambda>s. s) (strip ((\<lambda>s. s) s))) = strip ((\<lambda>s. s) s)"
    by (simp add: strip_strip)
  from normalizer_idempotent[OF h, of example_data] h
  show ?thesis unfolding clean_example by auto
qed

lemma valid_data_subseq: "subseq (valid_data ftfy data) (map (fix_item ftfy) data)"
  by (simp add: valid_data_def)

lemma dedup_order:
  "subseq (dedup [] xs) xs"
  using dedup_extends[of "[]" xs] by auto

text \<open>
  Claim C5: the output is a subsequence of the records that pass the required-fields
  check, hence of the repaired input, so the input order is preserved. For a record \<open>x\<close> that
  passes the check, with the records before it \<open>pre\<close> and after it \<open>post\<close>: the loop
  reaches \<open>x\<close> in a state \<open>st1\<close>; \<open>x\<close> is appended to the kept records, and its two
  keys are added to the seen-sets, exactly when neither key is the corresponding key of a
  record kept before; otherwise the state is unchanged; the records kept up to \<open>x\<close> stay
  a prefix of the final output. On the two records with titles \<open>A\<close> and \<open>a\<close> the loop
  keeps the first only, and so does the whole normalizer once the records have the other
  two required fields.
\<close>

theorem first_occurrence_wins:
  "(\<exists>out. clean_news_data ftfy data = Inr out \<and>
      subseq out (valid_data ftfy data) \<and> subseq out (map (fix_item ftfy) data)) \<and>
   (\<forall>pre x post. valid_data ftfy data = pre @ x # post \<longrightarrow>
      (\<exists>st1 st2 st3 t l.
         dedup_loop dedup_init pre = Inr st1 \<and>
         norm_key x ''title'' = Inr t \<and> norm_key x ''link'' = Inr l \<and>
         dedup_step st1 x = Inr st2 \<and>
         ((\<forall>y \<in> set (unique_data st1). norm_key y ''title'' \<noteq> Inr t \<and> norm_key y ''link'' \<noteq> Inr l)
            \<longrightarrow> st2 = st1\<lparr>seen_titles := insert t (seen_titles st1),
                           seen_links := insert l (seen_links st1),
                           unique_data := unique_data st1 @ [x]\<rparr>) \<and>
         (\<not> (\<forall>y \<in> set (unique_data st1). norm_key y ''title'' \<noteq> Inr t \<and> norm_key y ''link'' \<noteq> Inr l)
            \<longrightarrow> st2 = st1) \<and>
         dedup_loop st2 post = Inr st3 \<and>
         (\<exists>zs. unique_data st3 = unique_data st2 @ zs) \<and>
         clean_news_data ftfy data = Inr (unique_data st3))) \<and>
   (\<exists>st. dedup_loop dedup_init [article_A, article_a] = Inr st \<and> unique_data st = [article_A]) \<and>
   clean_news_data (\<lambda>s. s) [full_A, full_a] = Inr [full_A]"
proof -
  have 1: "\<exists>out. clean_news_data ftfy data = Inr out \<and>
      subseq out (valid_data ftfy data) \<and> subseq out (map (fix_item ftfy) data)"
  proof -
    have a: "subseq (dedup [] (valid_data ftfy data)) (valid_data ftfy data)"
      by (rule dedup_order)
    from a valid_data_subseq[of ftfy data]
    have b: "subseq (dedup [] (valid_data ftfy data)) (map (fix_item ftfy) data)"
      by (rule subseq_order.trans)
    from a b clean_news_data_eq[of ftfy data] show ?thesis by blast
  qed
  have 2: "\<forall>pre x post. valid_data ftfy data = pre @ x # post \<longrightarrow>
      (\<exists>st1 st2 st3 t l.
         dedup_loop dedup_init pre = Inr st1 \<and>
         norm_key x ''title'' = Inr t \<and> norm_key x ''link'' = Inr l \<and>
         dedup_step st1 x = Inr st2 \<and>
         ((\<forall>y \<in> set (unique_data st1). norm_key y ''title'' \<noteq> Inr t \<and> norm_key y ''link'' \<noteq> Inr l)
            \<longrightarrow> st2 = st1\<lparr>seen_titles := insert t (seen_titles st1),
                           seen_links := insert l (seen_links st1),
                           unique_data := unique_data st1 @ [x]\<rparr>) \<and>
         (\<not> (\<forall>y \<in> set (unique_data st1). norm_key y ''title'' \<noteq> Inr t \<and> norm_key y ''link'' \<noteq> Inr l)
            \<longrightarrow> st2 = st1) \<and>
         dedup_loop st2 post = Inr st3 \<and>
         (\<exists>zs. unique_data st3 = unique_data st2 @ zs) \<and>
         clean_news_data ftfy data = Inr (unique_data st3))"
  proof (intro allI impI)
    fix pre x post
    assume v: "valid_data ftfy data = pre @ x # post"
    from valid_data_keyed[of ftfy data] v
    have kp: "\<forall>a \<in> set pre. keyed a" and kx: "keyed x" and kq: "\<forall>a \<in> set post. keyed a"
      by auto
    from dedup_loop_keyed[OF kp consistent_init] obtain st1 where
      s1: "dedup_loop dedup_init pre = Inr st1" "consistent st1" by blast
    from keyed_norm_key[OF kx] obtain t l where
      k: "norm_key x ''title'' = Inr t" "norm_key x ''link'' = Inr l" by blast
    from dedup_step_keyed[OF kx s1(2)] obtain st2 where
      s2: "dedup_step st1 x = Inr st2" "consistent st2" by blast
    from dedup_loop_keyed[OF kq s2(2)] obtain st3 where
      s3: "dedup_loop st2 post = Inr st3" "unique_data st3 = dedup (unique_data st2) post"
      by blast
    from dedup_extends[of "unique_data st2" post] s3(2)
    have z: "\<exists>zs. unique_data st3 = unique_data st2 @ zs" by auto
    have "dedup_loop dedup_init (pre @ x # post) = Inr st3"
      using s1(1) s2(1) s3(1) by (simp add: dedup_loop_append)
    then have c: "clean_news_data ftfy data = Inr (unique_data st3)"
      by (simp add: clean_news_data_def v)
    note d = dedup_step_cases[OF s1(2) k]
    have y: "(\<forall>y \<in> set (unique_data st1). norm_key y ''title'' \<noteq> Inr t \<and> norm_key y ''link'' \<noteq> Inr l)
            \<longrightarrow> st2 = st1\<lparr>seen_titles := insert t (seen_titles st1),
                           seen_links := insert l (seen_links st1),
                           unique_data := unique_data st1 @ [x]\<rparr>"
      using d s2(1) by auto
    have n: "\<not> (\<forall>y \<in> set (unique_data st1). norm_key y ''title'' \<noteq> Inr t \<and> norm_key y ''link'' \<noteq> Inr l)
            \<longrightarrow> st2 = st1"
      using d s2(1) by auto
    from s1(1) k s2(1) y n s3(1) z c
    show "\<exists>st1 st2 st3 t l.
         dedup_loop dedup_init pre = Inr st1 \<and>
         norm_key x ''title'' = Inr t \<and> norm_key x ''link'' = Inr l \<and>
         dedup_step st1 x = Inr st2 \<and>
         ((\<forall>y \<in> set (unique_data st1). norm_key y ''title'' \<noteq> Inr t \<and> norm_key y ''link'' \<noteq> Inr l)
            \<longrightarrow> st2 = st1\<lparr>seen_titles := insert t (seen_titles st1),
                           seen_links := insert l (seen_links st1),
                           unique_data := unique_data st1 @ [x]\<rparr>) \<and>
         (\<not> (\<forall>y \<in> set (unique_data st1). norm_key y ''title'' \<noteq> Inr t \<and> norm_key y ''link'' \<noteq> Inr l)
            \<longrightarrow> st2 = st1) \<and>
         dedup_loop st2 post = Inr st3 \<and>
         (\<exists>zs. unique_data st3 = unique_data st2 @ zs) \<and>
         clean_news_data ftfy data = Inr (unique_data st3)"
      by blast
  qed
  have 3: "\<exists>st. dedup_loop dedup_init [article_A, article_a] = Inr st \<and> unique_data st = [article_A]"
    by (simp add: dedup_init_def dedup_step_def key_examples)
  have 4: "clean_news_data (\<lambda>s. s) [full_A, full_a] = Inr [full_A]"
    by (simp add: clean_news_data_def valid_data_def fix_examples required_examples
       dedup_init_def dedup_step_def key_examples)
  from 1 2 3 4 show ?thesis by blast
qed

text \<open>
  The second record of the example: its title key is that of the record kept before it,
  and the loop leaves the state unchanged.
\<close>

theorem first_occurrence_wins_witness:
  "valid_data (\<lambda>s. s) example_data = [full_A] @ full_a # [full_B] \<and>
   dedup_loop dedup_init [full_A] =
     Inr \<lparr>seen_titles = {''a''}, seen_links = {''http://x/1''}, unique_data = [full_A]\<rparr> \<and>
   norm_key full_a ''title'' = Inr ''a'' \<and>
   \<not> (\<forall>y \<in> set [full_A]. norm_key y ''title'' \<noteq> Inr ''a'' \<and>
                            norm_key y ''link'' \<noteq> Inr ''http://x/2'') \<and>
   dedup_step \<lparr>seen_titles = {''a''}, seen_links = {''http://x/1''}, unique_data = [full_A]\<rparr>
      full_a =
     Inr \<lparr>seen_titles = {''a''}, seen_links = {''http://x/1''}, unique_data = [full_A]\<rparr>"
proof -
  let ?S = "\<lparr>seen_titles = {''a''}, seen_links = {''http://x/1''}, unique_data = [full_A]\<rparr>"
  have v: "valid_data (\<lambda>s. s) example_data = [full_A] @ full_a # [full_B]"
    by (simp add: valid_example)
  have s: "dedup_loop dedup_init [full_A] = Inr ?S"
    by (simp add: dedup_init_def dedup_step_def key_examples)
  have n: "\<not> (\<forall>y \<in> set [full_A]. norm_key y ''title'' \<noteq> Inr ''a'' \<and>
                            norm_key y ''link'' \<noteq> Inr ''http://x/2'')"
    by (simp add: key_examples)
  from first_occurrence_wins[of "\<lambda>s. s" example_data] v
  obtain st1 st2 t l where
    w: "dedup_loop dedup_init [full_A] = Inr st1"
       "norm_key full_a ''title'' = Inr t" "norm_key full_a ''link'' = Inr l"
       "dedup_step st1 full_a = Inr st2"
       "\<not> (\<forall>y \<in> set (unique_data st1). norm_key y ''title'' \<noteq> Inr t \<and> norm_key y ''link'' \<noteq> Inr l)
            \<longrightarrow> st2 = st1"
    by blast
  from w(1) s have st1: "st1 = ?S" by simp
  from w(2,3) have tl: "t = ''a''" "l = ''http://x/2''" by (simp_all add: key_examples)
  from w(5) n have "st2 = st1" unfolding st1 tl by auto
  with w(4) have "dedup_step ?S full_a = Inr ?S" unfolding st1 by simp
  with v s n show ?thesis by (simp add: key_examples)
qed

end
